theory Spec2Isabelle
  imports Main "HOL-Library.Word"
begin

section \<open>The webhook inspector of main.go\<close>

text \<open>
  The program keeps a bounded, newest-first history of captured HTTP requests in two
  package-level variables, \<^verbatim>\<open>requests\<close> and \<^verbatim>\<open>nextID\<close>, guarded by the lock \<^verbatim>\<open>mu\<close>.
  Every access to the two variables happens inside a critical section of that lock, so a
  serial execution is a sequence of whole critical sections. The embedding below passes the
  pair of variables explicitly as a \<open>store\<close> and gives one function per critical section and
  one per handler.
\<close>

subsection \<open>Data\<close>

text \<open>
  Go's \<^verbatim>\<open>int\<close> is a 64-bit two's complement integer on 64-bit targets: \<^verbatim>\<open>nextID++\<close> wraps
  around, and \<open>sint\<close> reads the signed value. \<^verbatim>\<open>time.Time\<close> is opaque to the program (it is
  only stored), and is represented by a count of nanoseconds.
\<close>

type_synonym go_int = "64 word"
type_synonym time = int

text \<open>The struct \<^verbatim>\<open>RequestInfo\<close> (main.go, lines 14 to 22).\<close>

record RequestInfo =
  ID :: go_int
  Method :: string
  URL :: string
  Headers :: "string \<rightharpoonup> string"
  Body :: string
  Timestamp :: time
  RemoteAddr :: string

text \<open>
  The package-level variables (lines 24 to 28). A nil slice and an empty slice have the same
  length and the same elements, so both are the empty list.
\<close>

record store =
  requests :: "RequestInfo list"
  nextID :: go_int

definition init_store :: store where
  "init_store = \<lparr>requests = [], nextID = 1\<rparr>"

text \<open>
  What a handler reads of \<^verbatim>\<open>*http.Request\<close>. \<open>Header\<close> lists the entries of the map
  \<^verbatim>\<open>r.Header\<close> in the order in which \<^verbatim>\<open>range\<close> visits them; the keys of a Go map are
  distinct. \<open>Body_req\<close> is the outcome of \<^verbatim>\<open>io.ReadAll(r.Body)\<close>: \<open>None\<close> when it returns an
  error. \<open>URL_req\<close> is the value of \<^verbatim>\<open>r.URL.String()\<close>.
\<close>

record Request =
  Method_req :: string
  URL_req :: string
  Header :: "(string \<times> string list) list"
  Body_req :: "string option"
  RemoteAddr_req :: string

text \<open>
  What a handler writes to the \<^verbatim>\<open>http.ResponseWriter\<close>: the status code, the header fields
  set by the handler or by \<^verbatim>\<open>http.Error\<close> (those that the server adds on its own when the
  response goes out are left out), and the payload. The JSON encoder is not modelled; the
  payload of the listing endpoint is the value handed to the encoder.
\<close>

datatype payload = Text string | Json "RequestInfo list" | Empty

record Response =
  status :: nat
  header_w :: "(string \<times> string) list"
  body_w :: payload

text \<open>The run-time panics that the statements of the handlers can raise.\<close>

datatype panic = IndexOutOfRange | SliceBoundsOutOfRange

subsection \<open>The critical sections\<close>

text \<open>
  The slice expression \<^verbatim>\<open>xs[:n]\<close> panics when \<open>n\<close> exceeds the capacity of \<open>xs\<close>. The
  model has no capacity and panics already when \<open>n\<close> exceeds the length, which is never
  larger: a run of the model without panic is a run of the program without panic.
\<close>

definition slice_to :: "'a list \<Rightarrow> nat \<Rightarrow> panic + 'a list" where
  "slice_to xs n = (if n \<le> length xs then Inr (take n xs) else Inl SliceBoundsOutOfRange)"

text \<open>
  Lines 76 to 85 of \<^verbatim>\<open>webhookHandler\<close>: the id is written into the local \<^verbatim>\<open>info\<close>, the
  counter is incremented, the record is prepended and the slice is cut to its first 100
  elements when it is longer. The result is the updated local and the updated variables.
\<close>

definition Insert :: "RequestInfo \<Rightarrow> store \<Rightarrow> panic + (RequestInfo \<times> store)" where
  "Insert info s =
     (let info1 = info\<lparr>ID := nextID s\<rparr>;
          n = nextID s + 1;
          rs = [info1] @ requests s
      in if length rs > 100
         then (case slice_to rs 100 of
                 Inl e \<Rightarrow> Inl e
               | Inr rs1 \<Rightarrow> Inr (info1, \<lparr>requests = rs1, nextID = n\<rparr>))
         else Inr (info1, \<lparr>requests = rs, nextID = n\<rparr>))"

text \<open>Lines 93 to 95 of \<^verbatim>\<open>getRequestsHandler\<close>: the slice is read under the read lock.\<close>

definition Snapshot :: "store \<Rightarrow> RequestInfo list" where
  "Snapshot s = requests s"

text \<open>Lines 103 to 105 of \<^verbatim>\<open>clearRequestsHandler\<close>: only \<^verbatim>\<open>requests\<close> is assigned.\<close>

definition Clear :: "store \<Rightarrow> store" where
  "Clear s = s\<lparr>requests := []\<rparr>"

subsection \<open>The handlers\<close>

text \<open>
  \<^verbatim>\<open>http.Error\<close> of the standard library sets the header fields \<^verbatim>\<open>Content-Type\<close> and
  \<^verbatim>\<open>X-Content-Type-Options\<close>, writes the status code, and writes the message followed by
  a newline.
\<close>

definition http_Error :: "string \<Rightarrow> nat \<Rightarrow> Response" where
  "http_Error msg code =
     \<lparr>status = code,
      header_w = [(''Content-Type'', ''text/plain; charset=utf-8''),
                  (''X-Content-Type-Options'', ''nosniff'')],
      body_w = Text (msg @ [CHR 0x0A])\<rparr>"

text \<open>
  The loop of lines 62 to 65: each entry \<open>(k, v)\<close> of the request's header map stores
  \<^verbatim>\<open>v[0]\<close> under \<open>k\<close>. Indexing an empty slice panics.
\<close>

fun collect_headers ::
  "(string \<times> string list) list \<Rightarrow> (string \<rightharpoonup> string) \<Rightarrow> panic + (string \<rightharpoonup> string)" where
  "collect_headers [] headers = Inr headers"
| "collect_headers ((k, v) # rest) headers =
     (case v of
        [] \<Rightarrow> Inl IndexOutOfRange
      | v0 # _ \<Rightarrow> collect_headers rest (headers(k \<mapsto> v0)))"

text \<open>
  \<^verbatim>\<open>webhookHandler\<close> (lines 50 to 89). \<open>now\<close> is the value of \<^verbatim>\<open>time.Now()\<close>. A failed read
  of the body answers 500 and leaves the store alone. \<open>Inl\<close> is a panic of the handler.
\<close>

definition webhookHandler :: "time \<Rightarrow> Request \<Rightarrow> store \<Rightarrow> panic + (Response \<times> store)" where
  "webhookHandler now r s =
     (case Body_req r of
        None \<Rightarrow> Inr (http_Error ''Failed to read body'' 500, s)
      | Some bodyBytes \<Rightarrow>
          (case collect_headers (Header r) Map.empty of
             Inl e \<Rightarrow> Inl e
           | Inr headers \<Rightarrow>
               (let info = \<lparr>ID = 0, Method = Method_req r, URL = URL_req r,
                            Headers = headers, Body = bodyBytes, Timestamp = now,
                            RemoteAddr = RemoteAddr_req r\<rparr>
                in case Insert info s of
                     Inl e \<Rightarrow> Inl e
                   | Inr (info1, s1) \<Rightarrow>
                       Inr (\<lparr>status = 200, header_w = [], body_w = Text ''Webhook received''\<rparr>,
                            s1))))"

text \<open>\<^verbatim>\<open>getRequestsHandler\<close> (lines 91 to 96).\<close>

definition getRequestsHandler :: "Request \<Rightarrow> store \<Rightarrow> Response \<times> store" where
  "getRequestsHandler r s =
     (\<lparr>status = 200, header_w = [(''Content-Type'', ''application/json'')],
       body_w = Json (Snapshot s)\<rparr>, s)"

text \<open>\<^verbatim>\<open>clearRequestsHandler\<close> (lines 98 to 107).\<close>

definition clearRequestsHandler :: "Request \<Rightarrow> store \<Rightarrow> Response \<times> store" where
  "clearRequestsHandler r s =
     (if Method_req r \<noteq> ''POST''
      then (http_Error ''Method not allowed'' 405, s)
      else (\<lparr>status = 200, header_w = [], body_w = Empty\<rparr>, Clear s))"

subsection \<open>Serial runs\<close>

text \<open>
  A serial run is a list of operations, each a whole critical section. \<open>run\<close> returns the
  ids that the insertions of the run wrote into their records, in the order of the
  insertions, and the final store; it stops at the first panic.
\<close>

datatype op = OpInsert RequestInfo | OpSnapshot | OpClear

fun run :: "op list \<Rightarrow> store \<Rightarrow> panic + (go_int list \<times> store)" where
  "run [] s = Inr ([], s)"
| "run (OpInsert info # xs) s =
     (case Insert info s of
        Inl e \<Rightarrow> Inl e
      | Inr (info1, s1) \<Rightarrow>
          (case run xs s1 of
             Inl e \<Rightarrow> Inl e
           | Inr (ids, s2) \<Rightarrow> Inr (ID info1 # ids, s2)))"
| "run (OpSnapshot # xs) s = run xs s"
| "run (OpClear # xs) s = run xs (Clear s)"

fun inserts_in :: "op list \<Rightarrow> nat" where
  "inserts_in [] = 0"
| "inserts_in (OpInsert info # xs) = Suc (inserts_in xs)"
| "inserts_in (x # xs) = inserts_in xs"

subsection \<open>Example data\<close>

definition info_hook :: RequestInfo where
  "info_hook = \<lparr>ID = 0, Method = ''POST'', URL = ''/hook'', Headers = Map.empty, Body = ''{}'',
                 Timestamp = 1700000000, RemoteAddr = ''127.0.0.1:40000''\<rparr>"

definition info_ping :: RequestInfo where
  "info_ping = \<lparr>ID = 0, Method = ''GET'', URL = ''/ping?x=1'', Headers = Map.empty, Body = [],
                 Timestamp = 1700000001, RemoteAddr = ''10.0.0.7:5123''\<rparr>"

definition req_hook :: Request where
  "req_hook = \<lparr>Method_req = ''POST'', URL_req = ''/hook'',
                Header = [(''Accept'', [''text/html'', ''*/*'']), (''X-Token'', [''t1''])],
                Body_req = Some ''{}'', RemoteAddr_req = ''127.0.0.1:40000''\<rparr>"

section \<open>Properties\<close>

subsection \<open>Basic facts about the critical sections\<close>

lemma Insert_Inr:
  "Insert info s =
     Inr (info\<lparr>ID := nextID s\<rparr>,
          \<lparr>requests = take 100 (info\<lparr>ID := nextID s\<rparr> # requests s), nextID = nextID s + 1\<rparr>)"
  by (simp add: Insert_def slice_to_def Let_def)

lemma take_append_take: "take n (xs @ take n ys) = take n (xs @ ys)"
  by (induction xs arbitrary: n) (auto simp: take_Cons split: nat.splits)

lemma sint_word_of_nat:
  assumes "n < 2 ^ 63"
  shows "sint (word_of_nat n :: go_int) = int n"
proof -
  from assms have "int n < 2 ^ 63"
    by (metis of_nat_less_iff of_nat_numeral of_nat_power)
  then have "signed_take_bit 63 (int n) = int n"
    by (intro signed_take_bit_int_eq_self) simp_all
  then show ?thesis by (simp add: signed_of_nat)
qed

subsection \<open>Serial runs from a known counter\<close>

text \<open>
  A run of insertions alone leaves a store that is known in full: the records as inserted,
  each with the id that the counter held at its turn, newest first, cut to 100. A run of
  any operations assigns consecutive counter values to its insertions.
\<close>

lemma upt_add_Suc: "[m..<m + Suc n] = m # [Suc m..<Suc m + n]"
  by (subst upt_rec) simp

lemma map_upt_add_Suc: "map f [m..<Suc (m + n)] = f m # map f [Suc m..<Suc (m + n)]"
  using upt_add_Suc [of m n] by (simp del: upt_Suc)

lemma run_inserts_gen:
  assumes "nextID s = word_of_nat m" and "length (requests s) \<le> 100"
  shows "run (map OpInsert infos) s =
     Inr (map word_of_nat [m..<m + length infos],
          \<lparr>requests = take 100 (rev (map (\<lambda>(i, r). r\<lparr>ID := word_of_nat i\<rparr>) (enumerate m infos))
                                 @ requests s),
           nextID = word_of_nat (m + length infos)\<rparr>)"
  using assms
proof (induction infos arbitrary: s m)
  case Nil
  then show ?case by simp
next
  case (Cons info infos)
  let ?i1 = "info\<lparr>ID := word_of_nat m\<rparr>"
  let ?s1 = "\<lparr>requests = take 100 (?i1 # requests s), nextID = word_of_nat (Suc m)\<rparr>"
  have ins: "Insert info s = Inr (?i1, ?s1)"
    using Cons.prems(1) by (simp add: Insert_Inr)
  have ih: "run (map OpInsert infos) ?s1 =
     Inr (map word_of_nat [Suc m..<Suc m + length infos],
          \<lparr>requests = take 100 (rev (map (\<lambda>(i, r). r\<lparr>ID := word_of_nat i\<rparr>) (enumerate (Suc m) infos))
                                 @ requests ?s1),
           nextID = word_of_nat (Suc m + length infos)\<rparr>)"
    by (rule Cons.IH) simp_all
  have "take 100 (rev (map (\<lambda>(i, r). r\<lparr>ID := word_of_nat i\<rparr>) (enumerate (Suc m) infos))
                                 @ requests ?s1)
       = take 100 (rev (map (\<lambda>(i, r). r\<lparr>ID := word_of_nat i\<rparr>) (enumerate (Suc m) infos))
                                 @ take 100 (?i1 # requests s))"
    by (simp only: store.simps)
  also have "\<dots> = take 100 (rev (map (\<lambda>(i, r). r\<lparr>ID := word_of_nat i\<rparr>) (enumerate (Suc m) infos))
                                 @ (?i1 # requests s))"
    by (rule take_append_take)
  also have "\<dots> = take 100 (rev (map (\<lambda>(i, r). r\<lparr>ID := word_of_nat i\<rparr>) (enumerate m (info # infos)))
                                 @ requests s)"
    by simp
  finally have tk: "take 100 (rev (map (\<lambda>(i, r). r\<lparr>ID := word_of_nat i\<rparr>) (enumerate (Suc m) infos))
                                 @ requests ?s1)
       = take 100 (rev (map (\<lambda>(i, r). r\<lparr>ID := word_of_nat i\<rparr>) (enumerate m (info # infos)))
                                 @ requests s)" .
  have ids: "ID ?i1 # map word_of_nat [Suc m..<Suc m + length infos]
       = map word_of_nat [m..<m + length (info # infos)]"
    by (simp add: map_upt_add_Suc del: upt_Suc)
  have nx: "word_of_nat (Suc m + length infos) = (word_of_nat (m + length (info # infos)) :: go_int)"
    by simp
  show ?case
    unfolding list.map run.simps ins ih tk sum.case prod.case ids nx ..
qed

lemma run_inserts_init:
  "run (map OpInsert infos) init_store =
     Inr (map word_of_nat [1..<Suc (length infos)],
          \<lparr>requests = take 100 (rev (map (\<lambda>(i, r). r\<lparr>ID := word_of_nat i\<rparr>) (enumerate 1 infos))),
           nextID = word_of_nat (Suc (length infos))\<rparr>)"
  using run_inserts_gen [of init_store 1 infos] by (simp add: init_store_def)

lemma run_gen:
  assumes "nextID s = word_of_nat m"
  shows "\<exists>s1. run ops s = Inr (map word_of_nat [m..<m + inserts_in ops], s1)
            \<and> nextID s1 = word_of_nat (m + inserts_in ops)"
  using assms
proof (induction ops s arbitrary: m rule: run.induct)
  case (1 s)
  then show ?case by simp
next
  case (2 info xs s)
  let ?i1 = "info\<lparr>ID := word_of_nat m\<rparr>"
  let ?s1 = "\<lparr>requests = take 100 (?i1 # requests s), nextID = word_of_nat (Suc m)\<rparr>"
  have ins: "Insert info s = Inr (?i1, ?s1)"
    using "2.prems" by (simp add: Insert_Inr)
  have "\<exists>s2. run xs ?s1 = Inr (map word_of_nat [Suc m..<Suc m + inserts_in xs], s2)
            \<and> nextID s2 = word_of_nat (Suc m + inserts_in xs)"
    by (rule "2.IH" [OF ins refl]) simp
  then obtain s2 where r: "run xs ?s1 = Inr (map word_of_nat [Suc m..<Suc m + inserts_in xs], s2)"
     and n: "nextID s2 = word_of_nat (Suc m + inserts_in xs)" by blast
  have "run (OpInsert info # xs) s = Inr (map word_of_nat [m..<m + inserts_in (OpInsert info # xs)], s2)"
    unfolding run.simps ins r sum.case prod.case
    by (simp add: map_upt_add_Suc del: upt_Suc)
  with n show ?case by simp
next
  case (3 xs s)
  then show ?case by simp
next
  case (4 xs s)
  have "nextID (Clear s) = word_of_nat m" using "4.prems" by (simp add: Clear_def)
  from "4.IH" [OF this] show ?case by simp
qed

text \<open>
  The ids of the stored records are the ids assigned last, newest first: the stored
  sequence carries the ids that the run wrote, not some other value.
\<close>

lemma take_le_append_take:
  assumes "l \<le> n"
  shows "take l (xs @ take n ys) = take l (xs @ ys)"
proof -
  have tt: "take l (take n zs) = take l zs" for zs :: "'a list"
    using assms by (simp only: take_take min_absorb1)
  have "take l (xs @ take n ys) = take l (take n (xs @ take n ys))"
    by (simp only: tt)
  also have "\<dots> = take l (take n (xs @ ys))"
    by (simp only: take_append_take)
  also have "\<dots> = take l (xs @ ys)"
    by (simp only: tt)
  finally show ?thesis .
qed

lemma run_stored_ids:
  assumes "length (requests s) \<le> 100"
  shows "\<exists>ids s1. run ops s = Inr (ids, s1) \<and> length (requests s1) \<le> 100
           \<and> map ID (requests s1) = take (length (requests s1)) (rev ids @ map ID (requests s))"
  using assms
proof (induction ops s rule: run.induct)
  case (1 s)
  then show ?case by simp
next
  case (2 info xs s)
  let ?i1 = "info\<lparr>ID := nextID s\<rparr>"
  let ?s1 = "\<lparr>requests = take 100 (?i1 # requests s), nextID = nextID s + 1\<rparr>"
  have ins: "Insert info s = Inr (?i1, ?s1)"
    by (rule Insert_Inr)
  have "length (requests ?s1) \<le> 100" by simp
  from "2.IH" [OF ins refl this]
  obtain ids s2 where r: "run xs ?s1 = Inr (ids, s2)" and l: "length (requests s2) \<le> 100"
    and m: "map ID (requests s2) = take (length (requests s2)) (rev ids @ map ID (requests ?s1))"
    by blast
  have "map ID (requests ?s1) = take 100 (nextID s # map ID (requests s))"
    by (simp add: take_map)
  with m have "map ID (requests s2) =
      take (length (requests s2)) (rev ids @ take 100 (nextID s # map ID (requests s)))"
    by (simp only:)
  also have "\<dots> = take (length (requests s2)) (rev ids @ (nextID s # map ID (requests s)))"
    using l by (rule take_le_append_take)
  also have "\<dots> = take (length (requests s2)) (rev (ID ?i1 # ids) @ map ID (requests s))"
    by simp
  finally have m': "map ID (requests s2) =
      take (length (requests s2)) (rev (ID ?i1 # ids) @ map ID (requests s))" .
  have "run (OpInsert info # xs) s = Inr (ID ?i1 # ids, s2)"
    unfolding run.simps ins r sum.case prod.case ..
  with l m' show ?case by blast
next
  case (3 xs s)
  then show ?case by simp
next
  case (4 xs s)
  have "length (requests (Clear s)) \<le> 100" by (simp add: Clear_def)
  from "4.IH" [OF this]
  obtain ids s1 where r: "run xs (Clear s) = Inr (ids, s1)" and l: "length (requests s1) \<le> 100"
    and m: "map ID (requests s1) = take (length (requests s1)) (rev ids)"
    by (auto simp: Clear_def)
  from m have "length (map ID (requests s1)) = length (take (length (requests s1)) (rev ids))"
    by (simp only:)
  then have "length (requests s1) \<le> length ids"
    by simp
  then have "take (length (requests s1)) (rev ids @ map ID (requests s)) = take (length (requests s1)) (rev ids)"
    by simp
  with m have "map ID (requests s1) = take (length (requests s1)) (rev ids @ map ID (requests s))"
    by (simp only:)
  with r l show ?case by simp
qed

text \<open>
  After a run of insertions from the initial store, position \<open>k\<close> of the sequence holds
  the record inserted \<open>k\<close> calls before the last one, as it was given, with its id.
\<close>

lemma nth_inserted:
  assumes "k < min (length infos) 100"
  shows "take 100 (rev (map (\<lambda>(i, r). r\<lparr>ID := word_of_nat i\<rparr>) (enumerate 1 infos))) ! k =
           (infos ! (length infos - Suc k))\<lparr>ID := word_of_nat (length infos - k)\<rparr>"
proof -
  let ?n = "length infos"
  let ?st = "map (\<lambda>(i, r). r\<lparr>ID := word_of_nat i\<rparr>) (enumerate 1 infos)"
  from assms have k: "k < ?n" "k < 100"
    by simp_all
  have "take 100 (rev ?st) ! k = rev ?st ! k"
    using k by simp
  also have "\<dots> = ?st ! (?n - Suc k)"
    using k by (simp add: rev_nth)
  also have "\<dots> = (infos ! (?n - Suc k))\<lparr>ID := word_of_nat (Suc (?n - Suc k))\<rparr>"
    using k by (simp add: nth_enumerate_eq)
  also have "Suc (?n - Suc k) = ?n - k"
    using k by simp
  finally show ?thesis .
qed

subsection \<open>The header loop\<close>

text \<open>
  When every entry carries at least one value the loop does not panic, and the map it
  builds sends each name to the first value of the entry visited last under that name.
\<close>

lemma collect_headers_Inr:
  assumes "\<forall>(k, v) \<in> set hs. v \<noteq> []"
  shows "collect_headers hs m = Inr (m ++ map_of (rev (map (\<lambda>(k, v). (k, v ! 0)) hs)))"
  using assms
proof (induction hs arbitrary: m)
  case Nil
  then show ?case by simp
next
  case (Cons e hs)
  obtain k v where e: "e = (k, v)" by (cases e)
  with Cons.prems obtain v0 vs where v: "v = v0 # vs" by (cases v) auto
  from Cons.prems have "\<forall>(k, v) \<in> set hs. v \<noteq> []" by simp
  then have ih: "collect_headers hs (m(k \<mapsto> v0)) =
      Inr (m(k \<mapsto> v0) ++ map_of (rev (map (\<lambda>(k, v). (k, v ! 0)) hs)))"
    by (rule Cons.IH)
  have "collect_headers (e # hs) m = collect_headers hs (m(k \<mapsto> v0))"
    by (simp add: e v)
  also note ih
  also have "m(k \<mapsto> v0) ++ map_of (rev (map (\<lambda>(k, v). (k, v ! 0)) hs))
      = m ++ map_of (rev (map (\<lambda>(k, v). (k, v ! 0)) (e # hs)))"
    by (simp add: e v)
  finally show ?case .
qed

text \<open>The keys of a Go map are distinct, so the order of the visit does not matter.\<close>

lemma map_of_rev_distinct:
  assumes "distinct (map fst xs)"
  shows "map_of (rev xs) = map_of xs"
  by (metis assms distinct_rev map_of_inject_set rev_map set_rev)

subsection \<open>Reading consecutive counter values as signed integers\<close>

lemma sorted_wrt_map_int_upt: "sorted_wrt (<) (map int [m..<n])"
  by (simp add: sorted_wrt_map)

lemma sint_consecutive:
  assumes "n < 2 ^ 63"
  shows "map sint (map word_of_nat [1..<Suc n] :: go_int list) = map int [1..<Suc n]"
proof -
  have "sint (word_of_nat i :: go_int) = int i" if "i \<in> set [1..<Suc n]" for i
  proof -
    from that have "i \<le> n" by (simp del: upt_Suc)
    from this assms have "i < 2 ^ 63" by (rule le_less_trans)
    then show ?thesis by (rule sint_word_of_nat)
  qed
  then show ?thesis by (simp only: map_map o_def cong: map_cong)
qed

subsection \<open>The webhook handler\<close>

text \<open>
  With a readable body and at least one value under every header name, the handler stores
  the record it built from the request and answers 200, whatever the store holds.
\<close>

lemma webhookHandler_Inr:
  assumes "Body_req r = Some b" and "\<forall>(k, v) \<in> set (Header r). v \<noteq> []"
  shows "webhookHandler now r s =
     Inr (\<lparr>status = 200, header_w = [], body_w = Text ''Webhook received''\<rparr>,
          \<lparr>requests = take 100
             (\<lparr>ID = nextID s, Method = Method_req r, URL = URL_req r,
               Headers = map_of (rev (map (\<lambda>(k, v). (k, v ! 0)) (Header r))),
               Body = b, Timestamp = now, RemoteAddr = RemoteAddr_req r\<rparr> # requests s),
            nextID = nextID s + 1\<rparr>)"
  using assms(1) collect_headers_Inr [OF assms(2), of Map.empty]
  by (simp add: webhookHandler_def Insert_Inr)

lemma first_values:
  assumes "distinct (map fst hs)"
  shows "map_of (rev (map (\<lambda>(k, v). (k, v ! 0)) hs)) k = map_option (\<lambda>v. v ! 0) (map_of hs k)"
proof -
  have "map fst (map (\<lambda>(k, v). (k, v ! 0)) hs) = map fst hs"
    by (induction hs) auto
  with assms have "distinct (map fst (map (\<lambda>(k, v). (k, v ! 0)) hs))"
    by (simp only:)
  then have "map_of (rev (map (\<lambda>(k, v). (k, v ! 0)) hs)) k = map_of (map (\<lambda>(k, v). (k, v ! 0)) hs) k"
    by (simp only: map_of_rev_distinct)
  also have "\<dots> = map_option (\<lambda>v. v ! 0) (map_of hs k)"
    by (induction hs) auto
  finally show ?thesis .
qed

text \<open>
  The other two outcomes of the handler happen before the lock is taken, so the store is
  as it was: a failed read of the body answers 500, and an entry of the header map without
  a value makes \<^verbatim>\<open>v[0]\<close> panic. The HTTP server builds the header map from the lines of the
  received message, one value per line, so no entry of it is without a value.
\<close>

lemma webhookHandler_unreadable_body:
  "Body_req r = None \<Longrightarrow> webhookHandler now r s = Inr (http_Error ''Failed to read body'' 500, s)"
  by (simp add: webhookHandler_def)

lemma webhookHandler_panics:
  "Body_req r = Some b \<Longrightarrow> Header r = (k, []) # hs \<Longrightarrow> webhookHandler now r s = Inl IndexOutOfRange"
  by (simp add: webhookHandler_def)

subsection \<open>The end of the counter's range\<close>

text \<open>
  The counter is a Go \<^verbatim>\<open>int\<close>. At its largest value the increment wraps around to the
  smallest one; a run reaches that point after \<open>2 ^ 63 - 1\<close> insertions.
\<close>

lemma counter_wraps:
  "\<exists>info1 s1. Insert info \<lparr>requests = rs, nextID = 2 ^ 63 - 1\<rparr> = Inr (info1, s1)
      \<and> sint (ID info1) = 2 ^ 63 - 1 \<and> sint (nextID s1) = - (2 ^ 63)"
  by (simp add: Insert_Inr)

section \<open>The specified properties\<close>

text \<open>
  C1 (capacity invariant). From the initial store, a serial run of \<open>N\<close> insertions, for any
  \<open>N\<close> and any records, returns, and the sequence that a snapshot then reads has length
  \<open>min N 100\<close>. Moreover an insertion into any store whatever returns and leaves at most
  100 records.
\<close>

theorem capacity_invariant:
  "(\<exists>ids s1. run (map OpInsert infos) init_store = Inr (ids, s1)
       \<and> length (Snapshot s1) = min (length infos) 100)
   \<and> (\<exists>info1 s1. Insert info s = Inr (info1, s1) \<and> length (Snapshot s1) \<le> 100)"
  by (simp add: run_inserts_init Insert_Inr Snapshot_def)

text \<open>
  C2 (newest first, records unchanged). After a serial run of insertions of the records
  \<open>infos\<close> from the initial store, the snapshot holds at index 0 the record inserted last,
  and at every index \<open>k\<close> the record given to the insertion \<open>k\<close> calls before the last one,
  equal to what was given in every field but the id, which is the number of that insertion.
\<close>

theorem newest_first:
  "\<exists>ids s1. run (map OpInsert infos) init_store = Inr (ids, s1)
     \<and> (infos \<noteq> [] \<longrightarrow> Snapshot s1 ! 0 = (last infos)\<lparr>ID := word_of_nat (length infos)\<rparr>)
     \<and> (\<forall>k < length (Snapshot s1).
           Snapshot s1 ! k = (infos ! (length infos - Suc k))\<lparr>ID := word_of_nat (length infos - k)\<rparr>)"
proof -
  let ?n = "length infos"
  let ?st = "map (\<lambda>(i, r). r\<lparr>ID := word_of_nat i\<rparr>) (enumerate 1 infos)"
  let ?s1 = "\<lparr>requests = take 100 (rev ?st), nextID = word_of_nat (Suc ?n)\<rparr>"
  have r: "run (map OpInsert infos) init_store = Inr (map word_of_nat [1..<Suc ?n], ?s1)"
    by (rule run_inserts_init)
  have idx: "Snapshot ?s1 ! k = (infos ! (?n - Suc k))\<lparr>ID := word_of_nat (?n - k)\<rparr>"
    if "k < length (Snapshot ?s1)" for k
  proof -
    from that have "k < min ?n 100" by (simp add: Snapshot_def)
    from nth_inserted [OF this] show ?thesis by (simp only: Snapshot_def store.simps)
  qed
  have first: "Snapshot ?s1 ! 0 = (last infos)\<lparr>ID := word_of_nat ?n\<rparr>" if "infos \<noteq> []"
  proof -
    from that have "0 < length (Snapshot ?s1)" by (simp add: Snapshot_def)
    from idx [OF this] that show ?thesis by (simp add: last_conv_nth)
  qed
  from r idx first show ?thesis by blast
qed

text \<open>Two insertions: the second record is at index 0, the first at index 1.\<close>

theorem newest_first_witness:
  "\<exists>ids s1. run (map OpInsert [info_hook, info_ping]) init_store = Inr (ids, s1)
     \<and> Snapshot s1 ! 0 = info_ping\<lparr>ID := 2\<rparr> \<and> Snapshot s1 ! 1 = info_hook\<lparr>ID := 1\<rparr>"
proof -
  from newest_first [of "[info_hook, info_ping]"] obtain ids s1 where
    r: "run (map OpInsert [info_hook, info_ping]) init_store = Inr (ids, s1)" and
    f: "Snapshot s1 ! 0 = (last [info_hook, info_ping])\<lparr>ID := word_of_nat (length [info_hook, info_ping])\<rparr>" and
    a: "\<forall>k < length (Snapshot s1). Snapshot s1 ! k =
          ([info_hook, info_ping] ! (length [info_hook, info_ping] - Suc k))
            \<lparr>ID := word_of_nat (length [info_hook, info_ping] - k)\<rparr>"
    by auto
  have "run (map OpInsert [info_hook, info_ping]) init_store =
          Inr ([1, 2], \<lparr>requests = [info_ping\<lparr>ID := 2\<rparr>, info_hook\<lparr>ID := 1\<rparr>], nextID = 3\<rparr>)"
    by (simp add: Insert_def slice_to_def init_store_def Let_def)
  with r have "length (Snapshot s1) = 2"
    by (auto simp: Snapshot_def)
  with a have "Snapshot s1 ! 1 = info_hook\<lparr>ID := 1\<rparr>"
    by simp
  moreover from f have "Snapshot s1 ! 0 = info_ping\<lparr>ID := 2\<rparr>"
    by simp
  ultimately show ?thesis using r by blast
qed

text \<open>
  C3 (id assignment). The counter starts at 1. Every insertion, into any store, writes the
  current value of the counter into its record, stores that record (the given one with
  this id) at index 0 of the sequence, and leaves the counter one higher; clearing leaves
  the counter as it is. Hence in any serial run of insertions, snapshots and clears from
  the initial store the insertions are given the ids 1, 2, 3, ... in their order, and the
  records in the store carry the ids assigned last, newest first. As long as the run has
  fewer than \<open>2 ^ 63\<close> insertions (the range of Go's \<^verbatim>\<open>int\<close>) the ids read as signed
  integers are exactly \<open>1, ..., n\<close>: positive, strictly increasing and pairwise distinct.
\<close>

theorem id_assignment:
  "nextID init_store = 1
   \<and> (\<exists>info1 s1. Insert info s = Inr (info1, s1) \<and> ID info1 = nextID s \<and> nextID s1 = nextID s + 1
          \<and> Snapshot s1 \<noteq> [] \<and> Snapshot s1 ! 0 = info\<lparr>ID := nextID s\<rparr>
          \<and> ID (Snapshot s1 ! 0) = nextID s)
   \<and> nextID (Clear s) = nextID s
   \<and> (\<exists>s1. run ops init_store = Inr (map word_of_nat [1..<Suc (inserts_in ops)], s1)
          \<and> nextID s1 = word_of_nat (Suc (inserts_in ops))
          \<and> map ID (Snapshot s1) =
              take (length (Snapshot s1)) (rev (map word_of_nat [1..<Suc (inserts_in ops)])))
   \<and> (inserts_in ops < 2 ^ 63 \<longrightarrow>
        (\<exists>ids s1. run ops init_store = Inr (ids, s1)
           \<and> map sint ids = map int [1..<Suc (inserts_in ops)]
           \<and> sorted_wrt (<) (map sint ids)
           \<and> distinct ids
           \<and> (\<forall>i \<in> set ids. 0 < sint i)
           \<and> map ID (Snapshot s1) = take (length (Snapshot s1)) (rev ids)))"
proof -
  let ?n = "inserts_in ops"
  let ?ids = "map word_of_nat [1..<Suc ?n] :: go_int list"
  have a: "nextID init_store = 1"
    by (simp add: init_store_def)
  have b: "\<exists>info1 s1. Insert info s = Inr (info1, s1) \<and> ID info1 = nextID s \<and> nextID s1 = nextID s + 1
          \<and> Snapshot s1 \<noteq> [] \<and> Snapshot s1 ! 0 = info\<lparr>ID := nextID s\<rparr>
          \<and> ID (Snapshot s1 ! 0) = nextID s"
    by (simp add: Insert_Inr Snapshot_def)
  have c: "nextID (Clear s) = nextID s"
    by (simp add: Clear_def)
  from run_gen [of init_store 1 ops] a
  obtain s1 where r: "run ops init_store = Inr (?ids, s1)"
    and n: "nextID s1 = word_of_nat (Suc ?n)"
    by auto
  have "length (requests init_store) \<le> 100"
    by (simp add: init_store_def)
  from run_stored_ids [OF this, of ops] r
  have st: "map ID (Snapshot s1) = take (length (Snapshot s1)) (rev ?ids)"
    by (auto simp: Snapshot_def init_store_def)
  have e: "map sint ?ids = map int [1..<Suc ?n] \<and> sorted_wrt (<) (map sint ?ids)
           \<and> distinct ?ids \<and> (\<forall>i \<in> set ?ids. 0 < sint i)" if "?n < 2 ^ 63"
  proof -
    have m: "map sint ?ids = map int [1..<Suc ?n]"
      using that by (rule sint_consecutive)
    have s: "sorted_wrt (<) (map sint ?ids)"
      unfolding m by (rule sorted_wrt_map_int_upt)
    have "distinct (map sint ?ids)"
      unfolding m by (simp add: distinct_map del: upt_Suc)
    then have d: "distinct ?ids"
      by (simp only: distinct_map)
    have p: "0 < sint i" if "i \<in> set ?ids" for i
    proof -
      from that have "sint i \<in> set (map sint ?ids)" by (simp only: set_map image_eqI)
      then have "sint i \<in> set (map int [1..<Suc ?n])" by (simp only: m)
      then show ?thesis by (auto simp del: upt_Suc)
    qed
    from m s d p show ?thesis by blast
  qed
  from a b c r n st e show ?thesis by blast
qed

text \<open>
  Three insertions with a clear and a snapshot in between receive the ids 1, 2 and 3, and
  the record left in the store carries id 3.
\<close>

theorem id_assignment_witness:
  "\<exists>s1. run [OpInsert info_hook, OpInsert info_ping, OpClear, OpSnapshot, OpInsert info_hook] init_store
          = Inr ([1, 2, 3], s1)
        \<and> map sint [1, 2, 3 :: go_int] = [1, 2, 3] \<and> nextID s1 = 4
        \<and> Snapshot s1 = [info_hook\<lparr>ID := 3\<rparr>] \<and> map ID (Snapshot s1) = [3]"
proof -
  let ?ops = "[OpInsert info_hook, OpInsert info_ping, OpClear, OpSnapshot, OpInsert info_hook]"
  have n: "inserts_in ?ops = 3" by simp
  then have "inserts_in ?ops < 2 ^ 63" by simp
  with id_assignment [of info_hook init_store ?ops]
  obtain ids s1 where r: "run ?ops init_store = Inr (ids, s1)"
    and m: "map sint ids = map int [1..<Suc (inserts_in ?ops)]"
    and st: "map ID (Snapshot s1) = take (length (Snapshot s1)) (rev ids)"
    by blast
  have ev: "run ?ops init_store = Inr ([1, 2, 3], \<lparr>requests = [info_hook\<lparr>ID := 3\<rparr>], nextID = 4\<rparr>)"
    by (simp add: Insert_def slice_to_def init_store_def Clear_def Let_def)
  with r have i: "ids = [1, 2, 3]" and s: "s1 = \<lparr>requests = [info_hook\<lparr>ID := 3\<rparr>], nextID = 4\<rparr>"
    by simp_all
  from m n i have ms: "map sint [1, 2, 3 :: go_int] = [1, 2, 3]"
    by (simp add: upt_rec)
  from s have sn: "Snapshot s1 = [info_hook\<lparr>ID := 3\<rparr>]"
    by (simp add: Snapshot_def)
  from st i sn have "map ID (Snapshot s1) = [3]"
    by simp
  with ev s ms sn show ?thesis by simp
qed

text \<open>
  C4 (eviction order). After a serial run of more than 100 insertions from the initial
  store the snapshot is exactly the last 100 inserted records, newest first. An insertion
  into a store of 100 records drops the last record of the sequence, which is the oldest,
  and keeps the others in order behind the new one. After 150 insertions the snapshot has
  100 elements, the first with id 150 and the last with id 51.
\<close>

theorem eviction_order:
  "(100 < length infos \<longrightarrow>
      (\<exists>ids s1. run (map OpInsert infos) init_store = Inr (ids, s1)
         \<and> Snapshot s1 =
             rev (drop (length infos - 100)
                   (map (\<lambda>(i, r). r\<lparr>ID := word_of_nat i\<rparr>) (enumerate 1 infos)))))
   \<and> (length (requests s) = 100 \<longrightarrow>
      (\<exists>info1 s1. Insert info s = Inr (info1, s1)
         \<and> Snapshot s1 = info\<lparr>ID := nextID s\<rparr> # butlast (requests s)))
   \<and> (length infos = 150 \<longrightarrow>
      (\<exists>ids s1. run (map OpInsert infos) init_store = Inr (ids, s1)
         \<and> length (Snapshot s1) = 100
         \<and> ID (Snapshot s1 ! 0) = 150 \<and> ID (Snapshot s1 ! 99) = 51))"
proof -
  let ?n = "length infos"
  let ?st = "map (\<lambda>(i, r). r\<lparr>ID := word_of_nat i\<rparr>) (enumerate 1 infos)"
  let ?s1 = "\<lparr>requests = take 100 (rev ?st), nextID = word_of_nat (Suc ?n)\<rparr>"
  have r: "run (map OpInsert infos) init_store = Inr (map word_of_nat [1..<Suc ?n], ?s1)"
    by (rule run_inserts_init)
  have a: "Snapshot ?s1 = rev (drop (?n - 100) ?st)" if "100 < ?n"
    using that by (simp add: Snapshot_def take_rev)
  have b: "\<exists>info1 s1. Insert info s = Inr (info1, s1)
         \<and> Snapshot s1 = info\<lparr>ID := nextID s\<rparr> # butlast (requests s)" if "length (requests s) = 100"
    using that by (simp add: Insert_Inr Snapshot_def butlast_conv_take)
  have c: "length (Snapshot ?s1) = 100 \<and> ID (Snapshot ?s1 ! 0) = 150 \<and> ID (Snapshot ?s1 ! 99) = 51"
    if n: "?n = 150"
  proof -
    have l: "length (Snapshot ?s1) = 100"
      using n by (simp add: Snapshot_def)
    have "0 < min ?n 100" and "99 < min ?n 100"
      using n by simp_all
    from nth_inserted [OF this(1)] nth_inserted [OF this(2)] n
    have "ID (Snapshot ?s1 ! 0) = 150" and "ID (Snapshot ?s1 ! 99) = 51"
      by (simp_all add: Snapshot_def)
    with l show ?thesis by simp
  qed
  from r a b c show ?thesis by blast
qed

text \<open>A run of 150 insertions, and one insertion into a full store.\<close>

theorem eviction_order_witness:
  "(\<exists>ids s1. run (map OpInsert (replicate 150 info_hook)) init_store = Inr (ids, s1)
       \<and> length (Snapshot s1) = 100 \<and> ID (Snapshot s1 ! 0) = 150 \<and> ID (Snapshot s1 ! 99) = 51
       \<and> Snapshot s1 =
             rev (drop 50 (map (\<lambda>(i, r). r\<lparr>ID := word_of_nat i\<rparr>) (enumerate 1 (replicate 150 info_hook)))))
   \<and> (\<exists>info1 s1. Insert info_ping \<lparr>requests = replicate 100 info_hook, nextID = 101\<rparr> = Inr (info1, s1)
         \<and> Snapshot s1 = info_ping\<lparr>ID := 101\<rparr> # replicate 99 info_hook)"
proof -
  have h1: "100 < length (replicate 150 info_hook)" by simp
  have h2: "length (requests \<lparr>requests = replicate 100 info_hook, nextID = 101\<rparr>) = 100" by simp
  have h3: "length (replicate 150 info_hook) = 150" by simp
  note t = eviction_order [of "replicate 150 info_hook"
              "\<lparr>requests = replicate 100 info_hook, nextID = 101\<rparr>" info_ping]
  from t h1 obtain ids s1 where
    r: "run (map OpInsert (replicate 150 info_hook)) init_store = Inr (ids, s1)" and
    e: "Snapshot s1 = rev (drop (length (replicate 150 info_hook) - 100)
          (map (\<lambda>(i, r). r\<lparr>ID := word_of_nat i\<rparr>) (enumerate 1 (replicate 150 info_hook))))"
    by blast
  from t h3 obtain ids' s1' where
    r': "run (map OpInsert (replicate 150 info_hook)) init_store = Inr (ids', s1')" and
    c: "length (Snapshot s1') = 100" "ID (Snapshot s1' ! 0) = 150" "ID (Snapshot s1' ! 99) = 51"
    by blast
  from r r' have "s1' = s1" by simp
  with c e r have first: "\<exists>ids s1. run (map OpInsert (replicate 150 info_hook)) init_store = Inr (ids, s1)
       \<and> length (Snapshot s1) = 100 \<and> ID (Snapshot s1 ! 0) = 150 \<and> ID (Snapshot s1 ! 99) = 51
       \<and> Snapshot s1 =
             rev (drop 50 (map (\<lambda>(i, r). r\<lparr>ID := word_of_nat i\<rparr>) (enumerate 1 (replicate 150 info_hook))))"
    by simp
  from t h2 obtain info1 s2 where
    i: "Insert info_ping \<lparr>requests = replicate 100 info_hook, nextID = 101\<rparr> = Inr (info1, s2)" and
    s: "Snapshot s2 = info_ping\<lparr>ID := nextID \<lparr>requests = replicate 100 info_hook, nextID = 101\<rparr>\<rparr>
           # butlast (requests \<lparr>requests = replicate 100 info_hook, nextID = 101\<rparr>)"
    by blast
  from s have "Snapshot s2 = info_ping\<lparr>ID := 101\<rparr> # replicate 99 info_hook"
    by (simp add: butlast_conv_take)
  with i first show ?thesis by blast
qed

text \<open>
  C5 (clear empties and is idempotent). From any store, a snapshot after a clear is the
  empty sequence, and clearing twice gives the same store as clearing once. The clear
  endpoint called with POST performs exactly this clear, and the listing endpoint then
  hands the empty sequence to the encoder.
\<close>

theorem clear_idempotent:
  "Snapshot (Clear s) = [] \<and> Clear (Clear s) = Clear s
   \<and> snd (clearRequestsHandler (r\<lparr>Method_req := ''POST''\<rparr>) s) = Clear s
   \<and> fst (getRequestsHandler r' (Clear s)) =
        \<lparr>status = 200, header_w = [(''Content-Type'', ''application/json'')], body_w = Json []\<rparr>"
  by (simp add: Clear_def Snapshot_def clearRequestsHandler_def getRequestsHandler_def)

text \<open>
  C6 (clear keeps the counter). Clearing any store changes the sequence only: the counter
  is as before, so the next insertion gets the id it would have got without the clear.
  After three insertions from the initial store and a clear, the next insertion gets id 4.
\<close>

theorem clear_keeps_counter:
  "nextID (Clear s) = nextID s
   \<and> Clear s = s\<lparr>requests := []\<rparr>
   \<and> (\<exists>info1 s1. Insert info (Clear s) = Inr (info1, s1) \<and> ID info1 = nextID s)
   \<and> (\<exists>s1. run [OpInsert r1, OpInsert r2, OpInsert r3, OpClear, OpInsert r4] init_store
              = Inr ([1, 2, 3, 4], s1) \<and> Snapshot s1 = [r4\<lparr>ID := 4\<rparr>])"
  by (simp add: Clear_def Insert_def slice_to_def init_store_def Snapshot_def Let_def)

text \<open>
  C7 (header flattening). For a request whose body can be read and whose header map has at
  least one value under every name (as every header map built by the HTTP server has),
  the handler stores a record whose headers map each name of the request to the first
  value under that name, and hold no other name.
\<close>

theorem header_flattening:
  assumes "Body_req r = Some b"
    and "distinct (map fst (Header r))"
    and "\<forall>(k, v) \<in> set (Header r). v \<noteq> []"
  shows "\<exists>resp s1. webhookHandler now r s = Inr (resp, s1) \<and> Snapshot s1 \<noteq> []
     \<and> (\<forall>(k, v) \<in> set (Header r). Headers (Snapshot s1 ! 0) k = Some (v ! 0))
     \<and> dom (Headers (Snapshot s1 ! 0)) = fst ` set (Header r)"
proof -
  let ?h = "map_of (rev (map (\<lambda>(k, v). (k, v ! 0)) (Header r)))"
  let ?info = "\<lparr>ID = nextID s, Method = Method_req r, URL = URL_req r, Headers = ?h,
               Body = b, Timestamp = now, RemoteAddr = RemoteAddr_req r\<rparr>"
  let ?s1 = "\<lparr>requests = take 100 (?info # requests s), nextID = nextID s + 1\<rparr>"
  have w: "webhookHandler now r s =
     Inr (\<lparr>status = 200, header_w = [], body_w = Text ''Webhook received''\<rparr>, ?s1)"
    using assms(1,3) by (rule webhookHandler_Inr)
  have ne: "Snapshot ?s1 \<noteq> []" and hd: "Snapshot ?s1 ! 0 = ?info"
    by (simp_all add: Snapshot_def)
  have h: "?h k = map_option (\<lambda>v. v ! 0) (map_of (Header r) k)" for k
    using assms(2) by (rule first_values)
  have each: "Headers (Snapshot ?s1 ! 0) k = Some (v ! 0)" if "(k, v) \<in> set (Header r)" for k v
  proof -
    from assms(2) that have "map_of (Header r) k = Some v" by simp
    then show ?thesis unfolding hd by (simp add: h)
  qed
  have "dom ?h = dom (map_of (Header r))"
    by (auto simp: h dom_def)
  then have d: "dom (Headers (Snapshot ?s1 ! 0)) = fst ` set (Header r)"
    unfolding hd by (simp add: dom_map_of_conv_image_fst)
  from w ne each d show ?thesis by blast
qed

text \<open>A request with two values under \<open>Accept\<close> and one under \<open>X-Token\<close>.\<close>

theorem header_flattening_witness:
  "\<exists>resp s1. webhookHandler 1700000000 req_hook init_store = Inr (resp, s1)
     \<and> Headers (Snapshot s1 ! 0) ''Accept'' = Some ''text/html''
     \<and> Headers (Snapshot s1 ! 0) ''X-Token'' = Some ''t1''
     \<and> dom (Headers (Snapshot s1 ! 0)) = {''Accept'', ''X-Token''}"
proof -
  have b: "Body_req req_hook = Some ''{}''" by (simp add: req_hook_def)
  have d: "distinct (map fst (Header req_hook))" by (simp add: req_hook_def)
  have n: "\<forall>(k, v) \<in> set (Header req_hook). v \<noteq> []" by (simp add: req_hook_def)
  from header_flattening [OF b d n, of 1700000000 init_store]
  obtain resp s1 where w: "webhookHandler 1700000000 req_hook init_store = Inr (resp, s1)"
    and e: "\<forall>(k, v) \<in> set (Header req_hook). Headers (Snapshot s1 ! 0) k = Some (v ! 0)"
    and m: "dom (Headers (Snapshot s1 ! 0)) = fst ` set (Header req_hook)"
    by blast
  from e have "Headers (Snapshot s1 ! 0) ''Accept'' = Some ''text/html''"
    and "Headers (Snapshot s1 ! 0) ''X-Token'' = Some ''t1''"
    by (simp_all add: req_hook_def)
  moreover from m have "dom (Headers (Snapshot s1 ! 0)) = {''Accept'', ''X-Token''}"
    by (simp add: req_hook_def)
  ultimately show ?thesis using w by blast
qed

text \<open>
  C8 (the core operations cannot fail). An insertion of any record into any store returns:
  its record carries the counter's value as id and is at index 0 of the new sequence, also
  when the store was full, in which case the sequence is cut, not the insertion refused.
  Every serial run of insertions, snapshots and clears from any store returns, with one id
  per insertion. A snapshot is the stored sequence, a clear is the store with the empty
  sequence, and the listing endpoint and the clear endpoint under POST answer 200.
\<close>

theorem core_total:
  "(\<exists>info1 s1. Insert info s = Inr (info1, s1) \<and> ID info1 = nextID s
       \<and> Snapshot s1 \<noteq> [] \<and> Snapshot s1 ! 0 = info1
       \<and> length (Snapshot s1) = min (Suc (length (requests s))) 100)
   \<and> (\<exists>ids s1. run ops s = Inr (ids, s1) \<and> length ids = inserts_in ops)
   \<and> Snapshot s = requests s
   \<and> Clear s = \<lparr>requests = [], nextID = nextID s\<rparr>
   \<and> status (fst (getRequestsHandler r s)) = 200
   \<and> status (fst (clearRequestsHandler (r\<lparr>Method_req := ''POST''\<rparr>) s)) = 200"
proof -
  have a: "\<exists>info1 s1. Insert info s = Inr (info1, s1) \<and> ID info1 = nextID s
       \<and> Snapshot s1 \<noteq> [] \<and> Snapshot s1 ! 0 = info1
       \<and> length (Snapshot s1) = min (Suc (length (requests s))) 100"
    by (simp add: Insert_Inr Snapshot_def)
  from run_gen [of s "unat (nextID s)" ops]
  obtain s1 where "run ops s = Inr (map word_of_nat [unat (nextID s)..<unat (nextID s) + inserts_in ops], s1)"
    by auto
  then have b: "\<exists>ids s1. run ops s = Inr (ids, s1) \<and> length ids = inserts_in ops"
    by simp
  have c: "Clear s = \<lparr>requests = [], nextID = nextID s\<rparr>"
    by (cases s) (simp add: Clear_def)
  from a b c show ?thesis
    by (simp add: Snapshot_def getRequestsHandler_def clearRequestsHandler_def)
qed

text \<open>
  C9 (clearing needs POST). Under any method other than POST the clear endpoint answers
  405 with the message of \<^verbatim>\<open>http.Error\<close> and returns the store as it was, sequence and
  counter; under POST it answers 200 and empties the sequence.
\<close>

theorem clear_requires_post:
  "(Method_req r \<noteq> ''POST'' \<longrightarrow>
      clearRequestsHandler r s = (http_Error ''Method not allowed'' 405, s)
      \<and> status (fst (clearRequestsHandler r s)) = 405)
   \<and> (Method_req r = ''POST'' \<longrightarrow>
      clearRequestsHandler r s = (\<lparr>status = 200, header_w = [], body_w = Empty\<rparr>, s\<lparr>requests := []\<rparr>))"
  by (simp add: clearRequestsHandler_def http_Error_def Clear_def)

text \<open>The endpoint under GET and under POST, on a store with one record.\<close>

theorem clear_requires_post_witness:
  "clearRequestsHandler (req_hook\<lparr>Method_req := ''GET''\<rparr>) \<lparr>requests = [info_hook\<lparr>ID := 1\<rparr>], nextID = 2\<rparr>
     = (\<lparr>status = 405,
         header_w = [(''Content-Type'', ''text/plain; charset=utf-8''),
                     (''X-Content-Type-Options'', ''nosniff'')],
         body_w = Text (''Method not allowed'' @ [CHR 0x0A])\<rparr>,
        \<lparr>requests = [info_hook\<lparr>ID := 1\<rparr>], nextID = 2\<rparr>)
   \<and> clearRequestsHandler req_hook \<lparr>requests = [info_hook\<lparr>ID := 1\<rparr>], nextID = 2\<rparr>
     = (\<lparr>status = 200, header_w = [], body_w = Empty\<rparr>, \<lparr>requests = [], nextID = 2\<rparr>)"
proof -
  have g: "Method_req (req_hook\<lparr>Method_req := ''GET''\<rparr>) \<noteq> ''POST''" by simp
  have p: "Method_req req_hook = ''POST''" by (simp add: req_hook_def)
  from clear_requires_post [of "req_hook\<lparr>Method_req := ''GET''\<rparr>" "\<lparr>requests = [info_hook\<lparr>ID := 1\<rparr>], nextID = 2\<rparr>"] g
    clear_requires_post [of req_hook "\<lparr>requests = [info_hook\<lparr>ID := 1\<rparr>], nextID = 2\<rparr>"] p
  show ?thesis by (simp add: http_Error_def)
qed

text \<open>
  C10 (snapshots only read). The listing endpoint returns the store as it was, hands the
  stored sequence to the encoder, and a second call right after the first produces the
  same response; a snapshot in a serial run changes nothing for the rest of the run.
\<close>

theorem snapshot_pure:
  "snd (getRequestsHandler r s) = s
   \<and> body_w (fst (getRequestsHandler r s)) = Json (Snapshot s)
   \<and> fst (getRequestsHandler r' (snd (getRequestsHandler r s))) = fst (getRequestsHandler r s)
   \<and> run (OpSnapshot # ops) s = run ops s"
  by (simp add: getRequestsHandler_def)

end
